theory Spec2Isabelle
  imports Complex_Main "HOL-Library.Word"
begin

section \<open>QJsonArray: an implicitly shared JSON array\<close>

text \<open>
  The development embeds \<^verbatim>\<open>src/corelib/serialization/qjsonarray.cpp\<close>. The class
  \<^verbatim>\<open>QJsonArray\<close> has one data member, \<^verbatim>\<open>a\<close>, a reference-counted pointer to a
  \<^verbatim>\<open>QCborContainerPrivate\<close>. Several handles may point to one container, so the
  containers live in an explicit store and every member function takes the store and
  the handle, and returns what it changes.

  \<^verbatim>\<open>qsizetype\<close> is read as \<open>int\<close>: every index the file computes is a size or a
  size plus or minus one, and a size is bounded by the memory of the machine, far from
  the ends of a 64-bit integer.
\<close>

subsection \<open>Values\<close>

text \<open>
  Modelled from the spec: \<^verbatim>\<open>QJsonValue\<close> (qjsonvalue.h) is missing from the sources.
  The spec gives the element as a closed variant over Undefined, Null, Bool, Double,
  String, Array and Object. A nested array or object is held by value. A double is read
  as the number it denotes; this file does no arithmetic on it.
\<close>

datatype QJsonValue =
    JUndefined
  | JNull
  | JBool bool
  | JDouble real
  | JString string
  | JArray "QJsonValue list"
  | JObject "(string \<times> QJsonValue) list"

text \<open>
  Modelled from the spec: \<^verbatim>\<open>QCborValue\<close> (qcborvalue.h) is missing from the sources.
  It is the encoded representation a container stores, with an encoding for each
  variant of the element and a sentinel for Undefined. \<open>CNull\<close> is
  \<^verbatim>\<open>QCborValue(nullptr)\<close>.
\<close>

datatype QCborValue =
    CUndefined
  | CNull
  | CBool bool
  | CDouble real
  | CString string
  | CArray "QCborValue list"
  | CMap "(string \<times> QCborValue) list"

text \<open>
  Modelled from the spec: \<^verbatim>\<open>QCborValue::fromJsonValue\<close> is missing from the sources.
  It is the half of the spec's element codec that converts a typed element to the
  encoded representation; each variant goes to its own encoding.
\<close>

primrec fromJsonValue :: "QJsonValue \<Rightarrow> QCborValue" where
  "fromJsonValue JUndefined = CUndefined"
| "fromJsonValue JNull = CNull"
| "fromJsonValue (JBool b) = CBool b"
| "fromJsonValue (JDouble d) = CDouble d"
| "fromJsonValue (JString s) = CString s"
| "fromJsonValue (JArray vs) = CArray (map fromJsonValue vs)"
| "fromJsonValue (JObject kvs) = CMap (map (map_prod id fromJsonValue) kvs)"

text \<open>
  Modelled from the spec: \<^verbatim>\<open>QJsonPrivate::Value::fromTrustedCbor\<close> is missing from the
  sources. It is the other half of the codec, from the encoded representation back to
  the typed element.
\<close>

primrec fromTrustedCbor :: "QCborValue \<Rightarrow> QJsonValue" where
  "fromTrustedCbor CUndefined = JUndefined"
| "fromTrustedCbor CNull = JNull"
| "fromTrustedCbor (CBool b) = JBool b"
| "fromTrustedCbor (CDouble d) = JDouble d"
| "fromTrustedCbor (CString s) = JString s"
| "fromTrustedCbor (CArray vs) = JArray (map fromTrustedCbor vs)"
| "fromTrustedCbor (CMap kvs) = JObject (map (map_prod id fromTrustedCbor) kvs)"

text \<open>
  Modelled from the spec: \<^verbatim>\<open>QJsonValue::type\<close> is missing from the sources. The test
  \<^verbatim>\<open>value.type() == QJsonValue::Undefined\<close> of \<^verbatim>\<open>insert\<close> holds of the Undefined
  variant only.
\<close>

definition isUndefined :: "QJsonValue \<Rightarrow> bool" where
  "isUndefined v = (v = JUndefined)"

subsection \<open>The store of containers\<close>

text \<open>
  Modelled from the spec: \<^verbatim>\<open>QCborContainerPrivate\<close> (qcborvalue_p.h) is missing from
  the sources. The spec gives the shared storage backend as an ordered sequence of
  encoded values and a count of the references to it. The count is the signed atomic
  integer of \<^verbatim>\<open>QSharedData\<close>.
\<close>

record QCborContainerPrivate =
  ref :: int
  elements :: "QCborValue list"

text \<open>
  An address is a position in the store. A cell is \<open>None\<close> once its container has
  been deleted. \<^verbatim>\<open>new\<close> takes the next position, so a new container never has the
  address of a live one.
\<close>

type_synonym addr = nat
type_synonym store = "QCborContainerPrivate option list"

text \<open>The handle: the member \<^verbatim>\<open>a\<close>, with \<open>None\<close> for \<^verbatim>\<open>nullptr\<close>.\<close>

type_synonym QJsonArray = "addr option"

text \<open>
  A result \<open>None\<close> stands for undefined behaviour: a failed \<^verbatim>\<open>Q_ASSERT\<close>, an index
  outside the sequence handed to the container, or the use of a pointer to no live
  container.
\<close>

definition load :: "store \<Rightarrow> addr \<Rightarrow> QCborContainerPrivate option" where
  "load s p = (if p < length s then s ! p else None)"

definition new_container :: "store \<Rightarrow> QCborValue list \<Rightarrow> store \<times> addr" where
  "new_container s es = (s @ [Some \<lparr>ref = 0, elements = es\<rparr>], length s)"

text \<open>
  Modelled from the spec: the pointer class \<^verbatim>\<open>QExplicitlySharedDataPointer\<close> and the
  count of \<^verbatim>\<open>QSharedData\<close> are missing from the sources. A handle is copied by
  incrementing the count.
\<close>

definition ref_ref :: "store \<Rightarrow> addr \<Rightarrow> store option" where
  "ref_ref s p =
     (case load s p of
        None \<Rightarrow> None
      | Some c \<Rightarrow> Some (s[p := Some (c\<lparr>ref := ref c + 1\<rparr>)]))"

text \<open>
  Modelled from the spec: a reference is given up by decrementing the count, and the
  container is destroyed when the count reaches zero.
\<close>

definition ref_deref :: "store \<Rightarrow> addr \<Rightarrow> store option" where
  "ref_deref s p =
     (case load s p of
        None \<Rightarrow> None
      | Some c \<Rightarrow>
          if ref c - 1 = 0 then Some (s[p := None])
          else Some (s[p := Some (c\<lparr>ref := ref c - 1\<rparr>)]))"

text \<open>
  Modelled from the spec: the assignment \<^verbatim>\<open>a = o\<close> of a plain pointer \<open>o\<close> to the
  pointer class. Nothing happens when \<open>o\<close> is the pointer held; otherwise \<open>o\<close> gains
  a reference, the handle points to \<open>o\<close> and the old container loses a reference.
\<close>

definition assign_ptr :: "store \<Rightarrow> QJsonArray \<Rightarrow> addr option \<Rightarrow> (store \<times> QJsonArray) option" where
  "assign_ptr s a o' =
     (if o' = a then Some (s, a)
      else
        case (case o' of None \<Rightarrow> Some s | Some q \<Rightarrow> ref_ref s q) of
          None \<Rightarrow> None
        | Some s1 \<Rightarrow>
            (case (case a of None \<Rightarrow> Some s1 | Some p \<Rightarrow> ref_deref s1 p) of
               None \<Rightarrow> None
             | Some s2 \<Rightarrow> Some (s2, o')))"

text \<open>
  The member functions of the container are missing from the sources. The spec lists
  them as the interface of the storage backend: \<^verbatim>\<open>valueAt\<close>, \<^verbatim>\<open>insertAt\<close>,
  \<^verbatim>\<open>removeAt\<close>, \<^verbatim>\<open>replaceAt\<close>, \<^verbatim>\<open>extractAt\<close> and \<^verbatim>\<open>detach\<close>, with indices
  validated by the caller. Each is a function of the sequence; an index outside the
  sequence is undefined behaviour.
\<close>

text \<open>Modelled from the spec: \<^verbatim>\<open>valueAt(index)\<close>, the encoded element at the index.\<close>

definition valueAt :: "QCborValue list \<Rightarrow> int \<Rightarrow> QCborValue option" where
  "valueAt es i = (if 0 \<le> i \<and> i < int (length es) then Some (es ! nat i) else None)"

text \<open>
  Modelled from the spec: \<^verbatim>\<open>insertAt(index, element)\<close>; the elements from the index
  on move one position up.
\<close>

definition insertAt :: "QCborValue list \<Rightarrow> int \<Rightarrow> QCborValue \<Rightarrow> QCborValue list option" where
  "insertAt es i v =
     (if 0 \<le> i \<and> i \<le> int (length es) then Some (take (nat i) es @ v # drop (nat i) es)
      else None)"

text \<open>
  Modelled from the spec: \<^verbatim>\<open>removeAt(index)\<close> of the container; the elements above
  the index move one position down.
\<close>

definition c_removeAt :: "QCborValue list \<Rightarrow> int \<Rightarrow> QCborValue list option" where
  "c_removeAt es i =
     (if 0 \<le> i \<and> i < int (length es) then Some (take (nat i) es @ drop (Suc (nat i)) es)
      else None)"

text \<open>Modelled from the spec: \<^verbatim>\<open>replaceAt(index, element)\<close>.\<close>

definition replaceAt :: "QCborValue list \<Rightarrow> int \<Rightarrow> QCborValue \<Rightarrow> QCborValue list option" where
  "replaceAt es i v =
     (if 0 \<le> i \<and> i < int (length es) then Some (es[nat i := v]) else None)"

text \<open>
  Modelled from the spec: \<^verbatim>\<open>extractAt(index)\<close>, which the spec calls
  remove-and-return. \<^verbatim>\<open>QJsonArray::takeAt\<close> calls \<^verbatim>\<open>removeAt\<close> with the same
  index right after it, also for the last index, so what is removed is the value from
  its slot: the value is returned, and the slot stays in the sequence, holding the
  sentinel, until the caller removes it.
\<close>

definition extractAt :: "QCborValue list \<Rightarrow> int \<Rightarrow> (QCborValue \<times> QCborValue list) option" where
  "extractAt es i =
     (if 0 \<le> i \<and> i < int (length es) then Some (es ! nat i, es[nat i := CUndefined])
      else None)"

text \<open>
  Modelled from the spec: \<^verbatim>\<open>QCborContainerPrivate::detach(d, reserved)\<close>. A container
  with exactly one reference is returned as it is; otherwise its sequence is cloned
  into a new container, which has no reference until the handle takes it. The reserve
  is a capacity hint; a sequence has no capacity here.
\<close>

definition c_detach :: "store \<Rightarrow> addr \<Rightarrow> int \<Rightarrow> (store \<times> addr) option" where
  "c_detach s p reserved =
     (case load s p of
        None \<Rightarrow> None
      | Some c \<Rightarrow> if ref c = 1 then Some (s, p) else Some (new_container s (elements c)))"

subsection \<open>The member functions of QJsonArray\<close>

text \<open>
  \<^verbatim>\<open>QJsonArray::QJsonArray(const QJsonArray &other)\<close> (line 146), defaulted: the
  pointer is copied.
\<close>

definition copy :: "store \<Rightarrow> QJsonArray \<Rightarrow> (store \<times> QJsonArray) option" where
  "copy s other =
     (case other of
        None \<Rightarrow> Some (s, None)
      | Some p \<Rightarrow> (case ref_ref s p of None \<Rightarrow> None | Some s' \<Rightarrow> Some (s', Some p)))"

text \<open>
  \<^verbatim>\<open>QJsonArray::QJsonArray(QJsonArray &&other)\<close> (lines 153 to 157): \<^verbatim>\<open>a(other.a)\<close> copies the
  pointer, then \<^verbatim>\<open>other.a = nullptr\<close>. The result is the store, the new handle and
  the handle \<open>other\<close> is left with.
\<close>

definition move :: "store \<Rightarrow> QJsonArray \<Rightarrow> (store \<times> QJsonArray \<times> QJsonArray) option" where
  "move s other =
     (case copy s other of
        None \<Rightarrow> None
      | Some (s1, this) \<Rightarrow>
          (case assign_ptr s1 other None of
             None \<Rightarrow> None
           | Some (s2, other') \<Rightarrow> Some (s2, this, other')))"

text \<open>\<^verbatim>\<open>QJsonArray::size\<close>, \<^verbatim>\<open>isEmpty\<close> and \<^verbatim>\<open>at\<close> (lines 249 to 284).\<close>

definition size_arr :: "store \<Rightarrow> QJsonArray \<Rightarrow> int option" where
  "size_arr s a =
     (case a of
        None \<Rightarrow> Some 0
      | Some p \<Rightarrow> (case load s p of None \<Rightarrow> None | Some c \<Rightarrow> Some (int (length (elements c)))))"

definition isEmpty :: "store \<Rightarrow> QJsonArray \<Rightarrow> bool option" where
  "isEmpty s a =
     (case a of
        None \<Rightarrow> Some True
      | Some p \<Rightarrow> (case load s p of None \<Rightarrow> None | Some c \<Rightarrow> Some (elements c = [])))"

definition at_arr :: "store \<Rightarrow> QJsonArray \<Rightarrow> int \<Rightarrow> QJsonValue option" where
  "at_arr s a i =
     (case a of
        None \<Rightarrow> Some JUndefined
      | Some p \<Rightarrow>
          (case load s p of
             None \<Rightarrow> None
           | Some c \<Rightarrow>
               if i < 0 \<or> i \<ge> int (length (elements c)) then Some JUndefined
               else map_option fromTrustedCbor (valueAt (elements c) i)))"

text \<open>\<^verbatim>\<open>QJsonArray::first\<close> and \<^verbatim>\<open>last\<close> (lines 293 to 308).\<close>

definition first :: "store \<Rightarrow> QJsonArray \<Rightarrow> QJsonValue option" where
  "first s a = at_arr s a 0"

definition last_arr :: "store \<Rightarrow> QJsonArray \<Rightarrow> QJsonValue option" where
  "last_arr s a =
     (case a of
        None \<Rightarrow> at_arr s a 0
      | Some p \<Rightarrow>
          (case load s p of
             None \<Rightarrow> None
           | Some c \<Rightarrow> at_arr s a (int (length (elements c)) - 1)))"

text \<open>
  \<^verbatim>\<open>a->f(...)\<close> for a member function \<open>f\<close> of the container that edits the
  sequence in place: the container \<open>a\<close> points to gets the new sequence.
\<close>

definition edit :: "store \<Rightarrow> QJsonArray \<Rightarrow> (QCborValue list \<Rightarrow> QCborValue list option) \<Rightarrow> store option" where
  "edit s a f =
     (case a of
        None \<Rightarrow> None
      | Some p \<Rightarrow>
          (case load s p of
             None \<Rightarrow> None
           | Some c \<Rightarrow>
               (case f (elements c) of
                  None \<Rightarrow> None
                | Some es \<Rightarrow> Some (s[p := Some (c\<lparr>elements := es\<rparr>)]))))"

text \<open>\<^verbatim>\<open>a->extractAt(i)\<close>: the value comes back and the container keeps the emptied slot.\<close>

definition extract_value :: "store \<Rightarrow> QJsonArray \<Rightarrow> int \<Rightarrow> (store \<times> QCborValue) option" where
  "extract_value s a i =
     (case a of
        None \<Rightarrow> None
      | Some p \<Rightarrow>
          (case load s p of
             None \<Rightarrow> None
           | Some c \<Rightarrow>
               (case extractAt (elements c) i of
                  None \<Rightarrow> None
                | Some (x, es) \<Rightarrow> Some (s[p := Some (c\<lparr>elements := es\<rparr>)], x))))"

text \<open>
  \<^verbatim>\<open>bool QJsonArray::detach(qsizetype reserve)\<close> (lines 1064 to 1070), whose
  declaration gives \<open>reserve\<close> the default 0. The result is the store, the handle and
  the boolean returned.
\<close>

definition detach :: "store \<Rightarrow> QJsonArray \<Rightarrow> int \<Rightarrow> (store \<times> QJsonArray \<times> bool) option" where
  "detach s a reserve =
     (case a of
        None \<Rightarrow> Some (s, a, True)
      | Some p \<Rightarrow>
          (case (if reserve \<noteq> 0 then Some reserve else size_arr s a) of
             None \<Rightarrow> None
           | Some n \<Rightarrow>
               (case c_detach s p n of
                  None \<Rightarrow> None
                | Some (s1, q) \<Rightarrow>
                    (case assign_ptr s1 a (Some q) of
                       None \<Rightarrow> None
                     | Some (s2, a') \<Rightarrow> Some (s2, a', a' \<noteq> None)))))"

text \<open>\<^verbatim>\<open>QJsonArray::removeAt\<close> (lines 338 to 344).\<close>

definition removeAt :: "store \<Rightarrow> QJsonArray \<Rightarrow> int \<Rightarrow> (store \<times> QJsonArray) option" where
  "removeAt s a i =
     (case a of
        None \<Rightarrow> Some (s, a)
      | Some p \<Rightarrow>
          (case load s p of
             None \<Rightarrow> None
           | Some c \<Rightarrow>
               if i < 0 \<or> i \<ge> int (length (elements c)) then Some (s, a)
               else
                 (case detach s a 0 of
                    None \<Rightarrow> None
                  | Some (s1, a1, _) \<Rightarrow>
                      (case edit s1 a1 (\<lambda>es. c_removeAt es i) of
                         None \<Rightarrow> None
                       | Some s2 \<Rightarrow> Some (s2, a1)))))"

text \<open>\<^verbatim>\<open>QJsonArray::takeAt\<close> (lines 374 to 383).\<close>

definition takeAt :: "store \<Rightarrow> QJsonArray \<Rightarrow> int \<Rightarrow> (store \<times> QJsonArray \<times> QJsonValue) option" where
  "takeAt s a i =
     (case a of
        None \<Rightarrow> Some (s, a, JUndefined)
      | Some p \<Rightarrow>
          (case load s p of
             None \<Rightarrow> None
           | Some c \<Rightarrow>
               if i < 0 \<or> i \<ge> int (length (elements c)) then Some (s, a, JUndefined)
               else
                 (case detach s a 0 of
                    None \<Rightarrow> None
                  | Some (s1, a1, _) \<Rightarrow>
                      (case extract_value s1 a1 i of
                         None \<Rightarrow> None
                       | Some (s2, x) \<Rightarrow>
                           (case edit s2 a1 (\<lambda>es. c_removeAt es i) of
                              None \<Rightarrow> None
                            | Some s3 \<Rightarrow> Some (s3, a1, fromTrustedCbor x))))))"

text \<open>
  \<^verbatim>\<open>QJsonArray::insert\<close> (lines 392 to 402): detach or allocate, the \<^verbatim>\<open>Q_ASSERT\<close>
  on the index, then \<^verbatim>\<open>insertAt\<close> with Undefined replaced by \<^verbatim>\<open>QCborValue(nullptr)\<close>.
\<close>

definition insert_arr :: "store \<Rightarrow> QJsonArray \<Rightarrow> int \<Rightarrow> QJsonValue \<Rightarrow> (store \<times> QJsonArray) option" where
  "insert_arr s a i v =
     (case (case a of
              Some p \<Rightarrow>
                (case load s p of
                   None \<Rightarrow> None
                 | Some c \<Rightarrow>
                     map_option (\<lambda>(s1, a1, _). (s1, a1))
                       (detach s a (int (length (elements c)) + 1)))
            | None \<Rightarrow>
                (case new_container s [] of (s1, q) \<Rightarrow> assign_ptr s1 a (Some q))) of
        None \<Rightarrow> None
      | Some (s1, a1) \<Rightarrow>
          (case size_arr s1 a1 of
             None \<Rightarrow> None
           | Some n \<Rightarrow>
               if \<not> (i \<ge> 0 \<and> i \<le> n) then None
               else
                 (case edit s1 a1
                         (\<lambda>es. insertAt es i (if isUndefined v then CNull else fromJsonValue v)) of
                    None \<Rightarrow> None
                  | Some s2 \<Rightarrow> Some (s2, a1))))"

text \<open>\<^verbatim>\<open>QJsonArray::prepend\<close> and \<^verbatim>\<open>append\<close> (lines 317 to 330).\<close>

definition prepend :: "store \<Rightarrow> QJsonArray \<Rightarrow> QJsonValue \<Rightarrow> (store \<times> QJsonArray) option" where
  "prepend s a v = insert_arr s a 0 v"

definition append_arr :: "store \<Rightarrow> QJsonArray \<Rightarrow> QJsonValue \<Rightarrow> (store \<times> QJsonArray) option" where
  "append_arr s a v =
     (case a of
        None \<Rightarrow> insert_arr s a 0 v
      | Some p \<Rightarrow>
          (case load s p of
             None \<Rightarrow> None
           | Some c \<Rightarrow> insert_arr s a (int (length (elements c))) v))"

text \<open>
  \<^verbatim>\<open>QJsonArray::replace\<close> (lines 428 to 433): the \<^verbatim>\<open>Q_ASSERT\<close>, detach, then
  \<^verbatim>\<open>replaceAt\<close>. The value is stored as it is, Undefined included.
\<close>

definition replace :: "store \<Rightarrow> QJsonArray \<Rightarrow> int \<Rightarrow> QJsonValue \<Rightarrow> (store \<times> QJsonArray) option" where
  "replace s a i v =
     (case a of
        None \<Rightarrow> None
      | Some p \<Rightarrow>
          (case load s p of
             None \<Rightarrow> None
           | Some c \<Rightarrow>
               if \<not> (i \<ge> 0 \<and> i < int (length (elements c))) then None
               else
                 (case detach s a 0 of
                    None \<Rightarrow> None
                  | Some (s1, a1, _) \<Rightarrow>
                      (case edit s1 a1 (\<lambda>es. replaceAt es i (fromJsonValue v)) of
                         None \<Rightarrow> None
                       | Some s2 \<Rightarrow> Some (s2, a1)))))"

text \<open>
  \<^verbatim>\<open>QJsonArray::contains\<close> (lines 440 to 447): the loop
  \<^verbatim>\<open>for (i = 0; i < size(); i++)\<close> from position \<open>i\<close> on. The \<^verbatim>\<open>==\<close> of
  \<^verbatim>\<open>QJsonValue\<close> is missing from the sources; following the spec it is value equality
  on the variant.
\<close>

function contains_from :: "store \<Rightarrow> QJsonArray \<Rightarrow> QJsonValue \<Rightarrow> int \<Rightarrow> bool option" where
  "contains_from s a v i =
     (case size_arr s a of
        None \<Rightarrow> None
      | Some n \<Rightarrow>
          if i < n then
            (case at_arr s a i of
               None \<Rightarrow> None
             | Some x \<Rightarrow> if x = v then Some True else contains_from s a v (i + 1))
          else Some False)"
  by pat_completeness auto
termination
  by (relation "measure (\<lambda>(s, a, v, i). nat (the (size_arr s a) - i))") auto

declare contains_from.simps [simp del]

definition contains :: "store \<Rightarrow> QJsonArray \<Rightarrow> QJsonValue \<Rightarrow> bool option" where
  "contains s a v = contains_from s a v 0"

text \<open>
  The loop of \<^verbatim>\<open>comparesEqual\<close> (lines 490 to 493) from position \<open>i\<close> on. The
  \<^verbatim>\<open>!=\<close> of \<^verbatim>\<open>QCborValue\<close> is missing from the sources; following the spec, two
  encoded values are equal when they are the same variant with the same content, with
  no coercion.
\<close>

function equal_from :: "QCborValue list \<Rightarrow> QCborValue list \<Rightarrow> int \<Rightarrow> bool option" where
  "equal_from l r i =
     (if i < int (length l) then
        (case valueAt l i of
           None \<Rightarrow> None
         | Some x \<Rightarrow>
             (case valueAt r i of
                None \<Rightarrow> None
              | Some y \<Rightarrow> if x \<noteq> y then Some False else equal_from l r (i + 1)))
      else Some True)"
  by pat_completeness auto
termination
  by (relation "measure (\<lambda>(l, r, i). nat (int (length l) - i))") auto

declare equal_from.simps [simp del]

text \<open>
  \<^verbatim>\<open>comparesEqual(const QJsonArray &lhs, const QJsonArray &rhs)\<close> (lines 478 to 495).
  When the two pointers differ, at most one of them is \<^verbatim>\<open>nullptr\<close>.
\<close>

definition comparesEqual :: "store \<Rightarrow> QJsonArray \<Rightarrow> QJsonArray \<Rightarrow> bool option" where
  "comparesEqual s lhs rhs =
     (if lhs = rhs then Some True
      else
        case lhs of
          None \<Rightarrow>
            (case rhs of
               None \<Rightarrow> None
             | Some q \<Rightarrow>
                 (case load s q of
                    None \<Rightarrow> None
                  | Some cr \<Rightarrow> Some (length (elements cr) = 0)))
        | Some p \<Rightarrow>
            (case rhs of
               None \<Rightarrow>
                 (case load s p of
                    None \<Rightarrow> None
                  | Some cl \<Rightarrow> Some (length (elements cl) = 0))
             | Some q \<Rightarrow>
                 (case load s p of
                    None \<Rightarrow> None
                  | Some cl \<Rightarrow>
                      (case load s q of
                         None \<Rightarrow> None
                       | Some cr \<Rightarrow>
                           if length (elements cl) \<noteq> length (elements cr) then Some False
                           else equal_from (elements cl) (elements cr) 0))))"

text \<open>
  Modelled from the spec: the iterators (qjsonarray.h) are missing from the sources.
  The spec gives iteration as the finite sequence of the elements in storage order,
  with cursors that are positions and are read with \<^verbatim>\<open>at\<close>. \<open>iterate\<close> reads from
  one cursor up to another.
\<close>

function iterate :: "store \<Rightarrow> QJsonArray \<Rightarrow> int \<Rightarrow> int \<Rightarrow> QJsonValue list option" where
  "iterate s a it e =
     (if it < e then
        (case at_arr s a it of
           None \<Rightarrow> None
         | Some v \<Rightarrow> map_option ((#) v) (iterate s a (it + 1) e))
      else Some [])"
  by pat_completeness auto
termination
  by (relation "measure (\<lambda>(s, a, it, e). nat (e - it))") auto

declare iterate.simps [simp del]

text \<open>
  Modelled from the spec: the iteration of an array, from \<^verbatim>\<open>begin()\<close>, position 0,
  to \<^verbatim>\<open>end()\<close>, position \<^verbatim>\<open>size()\<close>.
\<close>

definition iteration :: "store \<Rightarrow> QJsonArray \<Rightarrow> QJsonValue list option" where
  "iteration s a = (case size_arr s a of None \<Rightarrow> None | Some n \<Rightarrow> iterate s a 0 n)"

type_synonym size_t = "64 word"

text \<open>
  Modelled from the spec: \<^verbatim>\<open>qHashRange\<close> is missing from the sources. It combines
  the hashes of the elements of a range in order, starting from the seed. The combiner,
  which hashes one element into the running value, is the parameter \<open>combine\<close>.
\<close>

definition qHashRange ::
  "(size_t \<Rightarrow> QJsonValue \<Rightarrow> size_t) \<Rightarrow> store \<Rightarrow> QJsonArray \<Rightarrow> int \<Rightarrow> int \<Rightarrow> size_t \<Rightarrow> size_t option" where
  "qHashRange combine s a b e seed = map_option (foldl combine seed) (iterate s a b e)"

text \<open>
  \<^verbatim>\<open>qHash(const QJsonArray &array, size_t seed)\<close> (lines 1072 to 1075):
  \<^verbatim>\<open>qHashRange(array.begin(), array.end(), seed)\<close>.
\<close>

definition qHash :: "(size_t \<Rightarrow> QJsonValue \<Rightarrow> size_t) \<Rightarrow> store \<Rightarrow> QJsonArray \<Rightarrow> size_t \<Rightarrow> size_t option" where
  "qHash combine s array seed =
     (case size_arr s array of
        None \<Rightarrow> None
      | Some n \<Rightarrow> qHashRange combine s array 0 n seed)"

subsection \<open>Handles, mutations and what a handle shows\<close>

text \<open>
  A handle is live in a store when it is empty or points to a container that is there
  and counts at least this one reference.
\<close>

definition live :: "store \<Rightarrow> QJsonArray \<Rightarrow> bool" where
  "live s a =
     (case a of
        None \<Rightarrow> True
      | Some p \<Rightarrow> (case load s p of None \<Rightarrow> False | Some c \<Rightarrow> 1 \<le> ref c))"

text \<open>The sequence a handle stands for.\<close>

definition encoded :: "store \<Rightarrow> QJsonArray \<Rightarrow> QCborValue list option" where
  "encoded s a = (case a of None \<Rightarrow> Some [] | Some p \<Rightarrow> map_option elements (load s p))"

text \<open>The member functions that change the array, as one type of requests.\<close>

datatype mutation =
    Insert int QJsonValue
  | Append QJsonValue
  | Prepend QJsonValue
  | RemoveAt int
  | TakeAt int
  | Replace int QJsonValue

fun mutate :: "store \<Rightarrow> QJsonArray \<Rightarrow> mutation \<Rightarrow> (store \<times> QJsonArray) option" where
  "mutate s a (Insert i v) = insert_arr s a i v"
| "mutate s a (Append v) = append_arr s a v"
| "mutate s a (Prepend v) = prepend s a v"
| "mutate s a (RemoveAt i) = removeAt s a i"
| "mutate s a (TakeAt i) = map_option (\<lambda>(s', a', _). (s', a')) (takeAt s a i)"
| "mutate s a (Replace i v) = replace s a i v"

text \<open>
  The contract of a mutation on an array of size \<open>n\<close>: the \<^verbatim>\<open>Q_ASSERT\<close> of
  \<^verbatim>\<open>insert\<close> and of \<^verbatim>\<open>replace\<close>; the other member functions take any argument.
\<close>

fun in_contract :: "int \<Rightarrow> mutation \<Rightarrow> bool" where
  "in_contract n (Insert i v) = (0 \<le> i \<and> i \<le> n)"
| "in_contract n (Replace i v) = (0 \<le> i \<and> i < n)"
| "in_contract n m = True"

subsection \<open>Stores used as examples\<close>

text \<open>One handle, at address 0, on the array \<open>[1, 2, 3]\<close>.\<close>

definition store_123 :: store where
  "store_123 = [Some \<lparr>ref = 1, elements = [CDouble 1, CDouble 2, CDouble 3]\<rparr>]"

text \<open>One handle, at address 0, on the array \<open>[1, 2]\<close>.\<close>

definition store_12 :: store where
  "store_12 = [Some \<lparr>ref = 1, elements = [CDouble 1, CDouble 2]\<rparr>]"

text \<open>One handle, at address 0, on a container whose sequence is empty.\<close>

definition store_empty :: store where
  "store_empty = [Some \<lparr>ref = 1, elements = []\<rparr>]"

text \<open>
  Three containers holding the double 2, one holding the string \<open>2\<close> and an empty
  one, each with one handle.
\<close>

definition store_eq :: store where
  "store_eq =
     [Some \<lparr>ref = 1, elements = [CDouble 2]\<rparr>,
      Some \<lparr>ref = 1, elements = [CDouble 2]\<rparr>,
      Some \<lparr>ref = 1, elements = [CDouble 2]\<rparr>,
      Some \<lparr>ref = 1, elements = [CString ''2'']\<rparr>,
      Some \<lparr>ref = 1, elements = []\<rparr>]"

text \<open>A combiner to run \<open>qHash\<close> on: it multiplies the running value and adds a number for the element.\<close>

definition combine_example :: "size_t \<Rightarrow> QJsonValue \<Rightarrow> size_t" where
  "combine_example h v =
     31 * h + (case v of JNull \<Rightarrow> 1 | JBool b \<Rightarrow> 2 | JDouble d \<Rightarrow> 3
               | JString t \<Rightarrow> 4 + of_nat (length t) | _ \<Rightarrow> 0)"

section \<open>Lemmas about the store\<close>

subsection \<open>The codec loses nothing\<close>

lemma fromTrustedCbor_inverse: "fromJsonValue (fromTrustedCbor c) = c"
proof (induction c)
  case (CArray xs)
  then show ?case by (simp add: map_idI)
next
  case (CMap kvs)
  have "map_prod id fromJsonValue (map_prod id fromTrustedCbor kv) = kv" if "kv \<in> set kvs" for kv
    using CMap [OF that] by (cases kv) (simp add: prod_set_simps)
  then show ?case by (simp add: map_idI)
qed simp_all

lemma fromJsonValue_inverse: "fromTrustedCbor (fromJsonValue v) = v"
proof (induction v)
  case (JArray xs)
  then show ?case by (simp add: map_idI)
next
  case (JObject kvs)
  have "map_prod id fromTrustedCbor (map_prod id fromJsonValue kv) = kv" if "kv \<in> set kvs" for kv
    using JObject [OF that] by (cases kv) (simp add: prod_set_simps)
  then show ?case by (simp add: map_idI)
qed simp_all

lemma fromTrustedCbor_eq_iff: "fromTrustedCbor x = fromTrustedCbor y \<longleftrightarrow> x = y"
  by (metis fromTrustedCbor_inverse)

subsection \<open>Reading the store\<close>

lemma load_update: "load (s[p := x]) q = (if q = p \<and> p < length s then x else load s q)"
  by (simp add: load_def)

lemma load_append: "load (s @ [x]) q = (if q = length s then x else load s q)"
  by (simp add: load_def nth_append)

lemma load_lt: "load s p = Some c \<Longrightarrow> p < length s"
  by (simp add: load_def split: if_splits)

lemma size_arr_encoded: "size_arr s a = map_option (\<lambda>es. int (length es)) (encoded s a)"
  by (simp add: size_arr_def encoded_def split: option.splits)

lemma isEmpty_encoded: "isEmpty s a = map_option (\<lambda>es. es = []) (encoded s a)"
  by (simp add: isEmpty_def encoded_def split: option.splits)

lemma at_arr_encoded:
  "at_arr s a i =
     map_option (\<lambda>es. if i < 0 \<or> int (length es) \<le> i then JUndefined
                       else fromTrustedCbor (es ! nat i)) (encoded s a)"
  by (auto simp: at_arr_def encoded_def valueAt_def split: option.splits)

subsection \<open>Detaching\<close>

lemma detach_unshared:
  "load s p = Some c \<Longrightarrow> ref c = 1 \<Longrightarrow> detach s (Some p) r = Some (s, Some p, True)"
  by (simp add: detach_def size_arr_def c_detach_def assign_ptr_def)

lemma detach_shared:
  assumes "load s p = Some c" and "ref c \<noteq> 1"
  shows "detach s (Some p) r =
    Some ((s @ [Some \<lparr>ref = 1, elements = elements c\<rparr>])[p := Some (c\<lparr>ref := ref c - 1\<rparr>)],
          Some (length s), True)"
proof -
  have lt: "p < length s" using assms(1) by (rule load_lt)
  show ?thesis
    using assms lt
    by (simp add: detach_def size_arr_def c_detach_def assign_ptr_def new_container_def
        ref_ref_def ref_deref_def load_append load_update)
qed

lemma edit_Some:
  "load s q = Some c \<Longrightarrow> f (elements c) = Some es \<Longrightarrow>
   edit s (Some q) f = Some (s[q := Some (c\<lparr>elements := es\<rparr>)])"
  by (simp add: edit_def)

lemma detach_Some:
  assumes ld: "load s p = Some c"
  shows "\<exists>s1 q c1. detach s (Some p) r = Some (s1, Some q, True)
           \<and> load s1 q = Some c1 \<and> ref c1 = 1 \<and> elements c1 = elements c
           \<and> (ref c = 1 \<longrightarrow> q = p)
           \<and> (ref c \<noteq> 1 \<longrightarrow> q \<noteq> p \<and> load s1 p = Some (c\<lparr>ref := ref c - 1\<rparr>))"
proof (cases "ref c = 1")
  case True
  have "detach s (Some p) r = Some (s, Some p, True)"
    using ld True by (rule detach_unshared)
  then show ?thesis using ld True by simp
next
  case False
  have lt: "p < length s" using ld by (rule load_lt)
  let ?s1 = "(s @ [Some \<lparr>ref = 1, elements = elements c\<rparr>])[p := Some (c\<lparr>ref := ref c - 1\<rparr>)]"
  have "detach s (Some p) r = Some (?s1, Some (length s), True)"
    using ld False by (rule detach_shared)
  moreover have "load ?s1 (length s) = Some \<lparr>ref = 1, elements = elements c\<rparr>"
    using lt by (simp add: load_update load_append)
  moreover have "load ?s1 p = Some (c\<lparr>ref := ref c - 1\<rparr>)"
    using lt by (simp add: load_update)
  ultimately show ?thesis using False lt by simp
qed

text \<open>Detaching, then one edit of the sequence.\<close>

lemma detach_edit:
  assumes ld: "load s p = Some c" and f: "f (elements c) = Some es"
  shows "\<exists>s1 q s2 c'. detach s (Some p) r = Some (s1, Some q, True)
           \<and> size_arr s1 (Some q) = Some (int (length (elements c)))
           \<and> edit s1 (Some q) f = Some s2
           \<and> load s2 q = Some c' \<and> ref c' = 1 \<and> elements c' = es
           \<and> (ref c = 1 \<longrightarrow> q = p)
           \<and> (ref c \<noteq> 1 \<longrightarrow> q \<noteq> p \<and> load s2 p = Some (c\<lparr>ref := ref c - 1\<rparr>))"
proof -
  from detach_Some [OF ld, of r] obtain s1 q c1 where
    d: "detach s (Some p) r = Some (s1, Some q, True)" and
    l1: "load s1 q = Some c1" and r1: "ref c1 = 1" and e1: "elements c1 = elements c" and
    u: "ref c = 1 \<longrightarrow> q = p" and
    sh: "ref c \<noteq> 1 \<longrightarrow> q \<noteq> p \<and> load s1 p = Some (c\<lparr>ref := ref c - 1\<rparr>)"
    by blast
  have lt: "q < length s1" using l1 by (rule load_lt)
  have e: "edit s1 (Some q) f = Some (s1[q := Some (c1\<lparr>elements := es\<rparr>)])"
    using l1 f e1 by (simp add: edit_Some)
  have sz: "size_arr s1 (Some q) = Some (int (length (elements c)))"
    using l1 e1 by (simp add: size_arr_def)
  show ?thesis
    using d e sz lt r1 u sh by (auto simp: load_update)
qed

subsection \<open>What each mutation leaves in the store\<close>

lemma removeAt_in_range:
  assumes ld: "load s p = Some c" and i: "0 \<le> i" "i < int (length (elements c))"
  shows "\<exists>s' q c'. removeAt s (Some p) i = Some (s', Some q)
           \<and> load s' q = Some c' \<and> ref c' = 1
           \<and> elements c' = take (nat i) (elements c) @ drop (Suc (nat i)) (elements c)
           \<and> (ref c = 1 \<longrightarrow> q = p)
           \<and> (ref c \<noteq> 1 \<longrightarrow> q \<noteq> p \<and> load s' p = Some (c\<lparr>ref := ref c - 1\<rparr>))"
proof -
  have f: "c_removeAt (elements c) i = Some (take (nat i) (elements c) @ drop (Suc (nat i)) (elements c))"
    using i by (simp add: c_removeAt_def)
  from detach_edit [OF ld, of "\<lambda>es. c_removeAt es i", OF f, of 0]
  show ?thesis using ld i by (auto simp: removeAt_def)
qed

lemma replace_in_range:
  assumes ld: "load s p = Some c" and i: "0 \<le> i" "i < int (length (elements c))"
  shows "\<exists>s' q c'. replace s (Some p) i v = Some (s', Some q)
           \<and> load s' q = Some c' \<and> ref c' = 1
           \<and> elements c' = (elements c)[nat i := fromJsonValue v]
           \<and> (ref c = 1 \<longrightarrow> q = p)
           \<and> (ref c \<noteq> 1 \<longrightarrow> q \<noteq> p \<and> load s' p = Some (c\<lparr>ref := ref c - 1\<rparr>))"
proof -
  have f: "replaceAt (elements c) i (fromJsonValue v) = Some ((elements c)[nat i := fromJsonValue v])"
    using i by (simp add: replaceAt_def)
  from detach_edit [OF ld, of "\<lambda>es. replaceAt es i (fromJsonValue v)", OF f, of 0]
  show ?thesis using ld i by (auto simp: replace_def)
qed

lemma insert_arr_in_range:
  assumes ld: "load s p = Some c" and i: "0 \<le> i" "i \<le> int (length (elements c))"
  shows "\<exists>s' q c'. insert_arr s (Some p) i v = Some (s', Some q)
           \<and> load s' q = Some c' \<and> ref c' = 1
           \<and> elements c' = take (nat i) (elements c)
                 @ (if isUndefined v then CNull else fromJsonValue v) # drop (nat i) (elements c)
           \<and> (ref c = 1 \<longrightarrow> q = p)
           \<and> (ref c \<noteq> 1 \<longrightarrow> q \<noteq> p \<and> load s' p = Some (c\<lparr>ref := ref c - 1\<rparr>))"
proof -
  let ?x = "if isUndefined v then CNull else fromJsonValue v"
  have f: "insertAt (elements c) i ?x = Some (take (nat i) (elements c) @ ?x # drop (nat i) (elements c))"
    using i by (simp add: insertAt_def)
  from detach_edit [OF ld, of "\<lambda>es. insertAt es i ?x", OF f, of "int (length (elements c)) + 1"]
  show ?thesis using ld i by (auto simp: insert_arr_def)
qed

lemma insert_arr_None:
  "insert_arr s None 0 v =
     Some (s @ [Some \<lparr>ref = 1, elements = [if isUndefined v then CNull else fromJsonValue v]\<rparr>],
           Some (length s))"
  by (simp add: insert_arr_def new_container_def assign_ptr_def ref_ref_def load_append
      size_arr_def edit_def insertAt_def)

lemma takeAt_in_range:
  assumes ld: "load s p = Some c" and i: "0 \<le> i" "i < int (length (elements c))"
  shows "\<exists>s' q. removeAt s (Some p) i = Some (s', Some q)
           \<and> takeAt s (Some p) i = Some (s', Some q, fromTrustedCbor (elements c ! nat i))"
proof -
  from detach_Some [OF ld, of 0] obtain s1 q c1 where
    d: "detach s (Some p) 0 = Some (s1, Some q, True)" and
    l1: "load s1 q = Some c1" and e1: "elements c1 = elements c"
    by blast
  have lt: "q < length s1" using l1 by (rule load_lt)
  let ?es = "elements c"
  let ?s2 = "s1[q := Some (c1\<lparr>elements := ?es[nat i := CUndefined]\<rparr>)]"
  let ?s3 = "s1[q := Some (c1\<lparr>elements := take (nat i) ?es @ drop (Suc (nat i)) ?es\<rparr>)]"
  have x: "extract_value s1 (Some q) i = Some (?s2, ?es ! nat i)"
    using l1 e1 i by (simp add: extract_value_def extractAt_def)
  have l2: "load ?s2 q = Some (c1\<lparr>elements := ?es[nat i := CUndefined]\<rparr>)"
    using lt by (simp add: load_update)
  have r2: "edit ?s2 (Some q) (\<lambda>es. c_removeAt es i) = Some ?s3"
    using l2 i lt by (simp add: edit_def c_removeAt_def)
  have r1: "edit s1 (Some q) (\<lambda>es. c_removeAt es i) = Some ?s3"
    using l1 e1 i by (simp add: edit_def c_removeAt_def)
  have "removeAt s (Some p) i = Some (?s3, Some q)"
    using ld i d r1 by (simp add: removeAt_def)
  moreover have "takeAt s (Some p) i = Some (?s3, Some q, fromTrustedCbor (?es ! nat i))"
    using ld i d x r2 by (simp add: takeAt_def)
  ultimately show ?thesis by blast
qed

subsection \<open>Sizes, positions and the sequence of a handle\<close>

lemma size_arr_SomeD:
  "size_arr s a = Some n \<Longrightarrow>
     (a = None \<and> n = 0) \<or> (\<exists>p c. a = Some p \<and> load s p = Some c \<and> n = int (length (elements c)))"
  by (auto simp: size_arr_def split: option.splits)

lemma size_arr_load: "load s p = Some c \<Longrightarrow> size_arr s (Some p) = Some (int (length (elements c)))"
  by (simp add: size_arr_def)

lemma at_arr_load:
  "load s p = Some c \<Longrightarrow>
   at_arr s (Some p) i = Some (if i < 0 \<or> int (length (elements c)) \<le> i then JUndefined
                               else fromTrustedCbor (elements c ! nat i))"
  by (auto simp: at_arr_def valueAt_def)

lemma nth_remove_lo:
  "j < k \<Longrightarrow> k < length xs \<Longrightarrow> (take k xs @ drop (Suc k) xs) ! j = xs ! j"
  by (simp add: nth_append min_def)

lemma nth_remove_hi:
  "k \<le> j \<Longrightarrow> j < length xs - 1 \<Longrightarrow> (take k xs @ drop (Suc k) xs) ! j = xs ! Suc j"
  by (auto simp: nth_append min_def)

lemma encoded_load: "load s p = Some c \<Longrightarrow> encoded s (Some p) = Some (elements c)"
  by (simp add: encoded_def)

lemma size_arr_encodedD:
  "size_arr s a = Some n \<Longrightarrow> \<exists>es. encoded s a = Some es \<and> n = int (length es)"
  by (auto simp: size_arr_encoded)

lemma insert_arr_encoded:
  assumes en: "encoded s a = Some es" and i: "0 \<le> i" "i \<le> int (length es)"
  shows "\<exists>s' a'. insert_arr s a i v = Some (s', a')
           \<and> encoded s' a' = Some (take (nat i) es
                 @ (if isUndefined v then CNull else fromJsonValue v) # drop (nat i) es)"
proof (cases a)
  case None
  then have "es = []" using en by (simp add: encoded_def)
  then have "i = 0" using i by simp
  then show ?thesis
    using None \<open>es = []\<close> by (simp add: insert_arr_None encoded_def load_append)
next
  case (Some p)
  then obtain c where ld: "load s p = Some c" and es: "es = elements c"
    using en by (auto simp: encoded_def)
  have i': "0 \<le> i" "i \<le> int (length (elements c))" using i es by simp_all
  from insert_arr_in_range [OF ld i', of v] obtain s' q c' where
    "insert_arr s (Some p) i v = Some (s', Some q)" "load s' q = Some c'"
    "elements c' = take (nat i) (elements c)
           @ (if isUndefined v then CNull else fromJsonValue v) # drop (nat i) (elements c)"
    by blast
  then show ?thesis using Some es by (simp add: encoded_load)
qed

lemma nth_inserted: "k \<le> length xs \<Longrightarrow> (take k xs @ x # drop k xs) ! k = x"
  by (simp add: nth_append)

lemma append_arr_insert: "size_arr s a = Some n \<Longrightarrow> append_arr s a v = insert_arr s a n v"
  by (auto simp: append_arr_def size_arr_def split: option.splits)

subsection \<open>Copying and moving a handle\<close>

lemma liveD: "live s (Some p) \<Longrightarrow> \<exists>c. load s p = Some c \<and> 1 \<le> ref c"
  by (simp add: live_def split: option.splits)

lemma store_update_same: "load s p = Some c \<Longrightarrow> s[p := Some c] = s"
  by (simp add: load_def list_update_same_conv split: if_splits)

lemma copy_Some:
  "load s p = Some c \<Longrightarrow> copy s (Some p) = Some (s[p := Some (c\<lparr>ref := ref c + 1\<rparr>)], Some p)"
  by (simp add: copy_def ref_ref_def)

lemma move_live:
  assumes "live s other"
  shows "move s other = Some (s, other, None)"
proof (cases other)
  case None
  then show ?thesis by (simp add: move_def copy_def assign_ptr_def)
next
  case (Some p)
  then obtain c where ld: "load s p = Some c" and r: "1 \<le> ref c"
    using assms liveD by blast
  have lt: "p < length s" using ld by (rule load_lt)
  have "c\<lparr>ref := ref c + 1, ref := ref c\<rparr> = c" by simp
  then show ?thesis
    using Some ld r lt
    by (simp add: move_def copy_Some assign_ptr_def ref_deref_def load_update store_update_same)
qed

subsection \<open>A mutation through a shared handle leaves the container alone\<close>

lemma insert_arr_out_of_range:
  assumes ld: "load s p = Some c" and i: "\<not> (0 \<le> i \<and> i \<le> int (length (elements c)))"
  shows "insert_arr s (Some p) i v = None"
proof -
  from detach_Some [OF ld, of "int (length (elements c)) + 1"] obtain s1 q c1 where
    "detach s (Some p) (int (length (elements c)) + 1) = Some (s1, Some q, True)"
    "load s1 q = Some c1" "elements c1 = elements c"
    by blast
  then show ?thesis using ld i by (simp add: insert_arr_def size_arr_def)
qed

lemma mutate_shared_frame:
  assumes ld: "load s p = Some c" and sh: "ref c \<noteq> 1"
    and m: "mutate s (Some p) m = Some (s2, b)"
  shows "encoded s2 (Some p) = Some (elements c)"
proof -
  have ins: "encoded s2 (Some p) = Some (elements c)"
    if "insert_arr s (Some p) i v = Some (s2, b)" for i v
  proof (cases "0 \<le> i \<and> i \<le> int (length (elements c))")
    case True
    then have i: "0 \<le> i" "i \<le> int (length (elements c))" by simp_all
    from insert_arr_in_range [OF ld i, of v] that sh show ?thesis
      by (auto simp: encoded_def)
  next
    case False
    then show ?thesis using insert_arr_out_of_range [OF ld False, of v] that by simp
  qed
  have rem: "encoded s2 (Some p) = Some (elements c)"
    if "removeAt s (Some p) i = Some (s2, b)" for i
  proof (cases "0 \<le> i \<and> i < int (length (elements c))")
    case True
    then have i: "0 \<le> i" "i < int (length (elements c))" by simp_all
    from removeAt_in_range [OF ld i] that sh show ?thesis
      by (auto simp: encoded_def)
  next
    case False
    then show ?thesis using that ld by (auto simp: removeAt_def encoded_def)
  qed
  show ?thesis
  proof (cases m)
    case (Insert i v)
    then show ?thesis using m ins by simp
  next
    case (Append v)
    then show ?thesis using m ins ld by (simp add: append_arr_def)
  next
    case (Prepend v)
    then show ?thesis using m ins by (simp add: prepend_def)
  next
    case (RemoveAt i)
    then show ?thesis using m rem by simp
  next
    case (TakeAt i)
    show ?thesis
    proof (cases "0 \<le> i \<and> i < int (length (elements c))")
      case True
      then have i: "0 \<le> i" "i < int (length (elements c))" by simp_all
      from takeAt_in_range [OF ld i] TakeAt m have "removeAt s (Some p) i = Some (s2, b)"
        by auto
      then show ?thesis by (rule rem)
    next
      case False
      then show ?thesis using TakeAt m ld by (auto simp: takeAt_def encoded_def)
    qed
  next
    case (Replace i v)
    show ?thesis
    proof (cases "0 \<le> i \<and> i < int (length (elements c))")
      case True
      then have i: "0 \<le> i" "i < int (length (elements c))" by simp_all
      from replace_in_range [OF ld i, of v] Replace m sh show ?thesis
        by (auto simp: encoded_def)
    next
      case False
      then show ?thesis using Replace m ld by (auto simp: replace_def)
    qed
  qed
qed

subsection \<open>Equality, iteration and hashing read the sequence\<close>

lemma equal_from_drop:
  "length l = length r \<Longrightarrow> 0 \<le> i \<Longrightarrow>
   equal_from l r i = Some (drop (nat i) l = drop (nat i) r)"
proof (induction l r i rule: equal_from.induct)
  case (1 l r i)
  show ?case
  proof (cases "i < int (length l)")
    case False
    then have "length l \<le> nat i" by linarith
    then show ?thesis using False "1.prems" by (subst equal_from.simps) simp
  next
    case True
    then have k: "nat i < length l" "nat i < length r" using "1.prems" by linarith+
    have vl: "valueAt l i = Some (l ! nat i)" and vr: "valueAt r i = Some (r ! nat i)"
      using True "1.prems" by (simp_all add: valueAt_def)
    have dl: "drop (nat i) l = l ! nat i # drop (nat (i + 1)) l"
      using k "1.prems" by (simp add: Cons_nth_drop_Suc nat_add_distrib)
    have dr: "drop (nat i) r = r ! nat i # drop (nat (i + 1)) r"
      using k "1.prems" by (simp add: Cons_nth_drop_Suc nat_add_distrib)
    show ?thesis
    proof (cases "l ! nat i = r ! nat i")
      case False
      then show ?thesis using True vl vr dl dr by (subst equal_from.simps) simp
    next
      case same: True
      have "equal_from l r (i + 1) = Some (drop (nat (i + 1)) l = drop (nat (i + 1)) r)"
        using "1.IH" [OF True vl vr] same "1.prems" by simp
      then show ?thesis using True vl vr dl dr same by (subst equal_from.simps) simp
    qed
  qed
qed

lemma comparesEqual_encoded:
  assumes "encoded s A = Some ea" and "encoded s B = Some eb"
  shows "comparesEqual s A B = Some (ea = eb)"
proof (cases "A = B")
  case True
  then show ?thesis using assms by (simp add: comparesEqual_def)
next
  case False
  show ?thesis
  proof (cases A)
    case None
    then obtain q where "B = Some q" using False by (cases B) auto
    then show ?thesis using None assms by (auto simp: comparesEqual_def encoded_def)
  next
    case (Some p)
    show ?thesis
    proof (cases B)
      case None
      then show ?thesis using Some assms by (auto simp: comparesEqual_def encoded_def)
    next
      case B: (Some q)
      show ?thesis
      proof (cases "length ea = length eb")
        case True
        then show ?thesis
          using Some B False assms equal_from_drop [of ea eb 0]
          by (auto simp: comparesEqual_def encoded_def)
      next
        case False
        then show ?thesis
          using Some B \<open>A \<noteq> B\<close> assms by (auto simp: comparesEqual_def encoded_def)
      qed
    qed
  qed
qed

lemma encoded_eq_iff:
  assumes "encoded s A = Some ea" and "encoded s B = Some eb"
  shows "ea = eb \<longleftrightarrow>
     size_arr s A = size_arr s B
     \<and> (\<forall>i. 0 \<le> i \<and> i < int (length ea) \<longrightarrow> at_arr s A i = at_arr s B i)"
proof
  assume "ea = eb"
  then show "size_arr s A = size_arr s B
     \<and> (\<forall>i. 0 \<le> i \<and> i < int (length ea) \<longrightarrow> at_arr s A i = at_arr s B i)"
    using assms by (simp add: size_arr_encoded at_arr_encoded)
next
  assume r: "size_arr s A = size_arr s B
     \<and> (\<forall>i. 0 \<le> i \<and> i < int (length ea) \<longrightarrow> at_arr s A i = at_arr s B i)"
  then have len: "length ea = length eb" using assms by (simp add: size_arr_encoded)
  have "ea ! k = eb ! k" if "k < length ea" for k
  proof -
    have "0 \<le> int k \<and> int k < int (length ea)" using that by simp
    then have "at_arr s A (int k) = at_arr s B (int k)" using r by blast
    then show ?thesis
      using that len assms by (simp add: at_arr_encoded fromTrustedCbor_eq_iff)
  qed
  then show "ea = eb" using len by (simp add: list_eq_iff_nth_eq)
qed

lemma iterate_drop:
  "encoded s a = Some es \<Longrightarrow> 0 \<le> it \<Longrightarrow> e = int (length es) \<Longrightarrow>
   iterate s a it e = Some (map fromTrustedCbor (drop (nat it) es))"
proof (induction s a it e rule: iterate.induct)
  case (1 s a it e)
  show ?case
  proof (cases "it < e")
    case False
    then have "length es \<le> nat it" using "1.prems" by linarith
    then show ?thesis using False by (subst iterate.simps) simp
  next
    case True
    then have k: "nat it < length es" using "1.prems" by linarith
    have v: "at_arr s a it = Some (fromTrustedCbor (es ! nat it))"
      using True "1.prems" by (simp add: at_arr_encoded)
    have d: "drop (nat it) es = es ! nat it # drop (nat (it + 1)) es"
      using k "1.prems" by (simp add: Cons_nth_drop_Suc nat_add_distrib)
    have "iterate s a (it + 1) e = Some (map fromTrustedCbor (drop (nat (it + 1)) es))"
      using "1.IH" [OF True v] "1.prems" by simp
    then show ?thesis using True v d by (subst iterate.simps) simp
  qed
qed

lemma iteration_encoded:
  "encoded s a = Some es \<Longrightarrow> iteration s a = Some (map fromTrustedCbor es)"
  using iterate_drop [of s a es 0 "int (length es)"]
  by (simp add: iteration_def size_arr_encoded)

lemma qHash_encoded:
  "encoded s a = Some es \<Longrightarrow>
   qHash combine s a seed = Some (foldl combine seed (map fromTrustedCbor es))"
  using iterate_drop [of s a es 0 "int (length es)"]
  by (simp add: qHash_def qHashRange_def size_arr_encoded)

lemma contains_empty: "size_arr s a = Some 0 \<Longrightarrow> contains s a v = Some False"
  unfolding contains_def by (subst contains_from.simps) simp

subsection \<open>A mutation within its contract returns\<close>

lemma mutate_returns:
  assumes ld: "load s p = Some c" and m: "in_contract (int (length (elements c))) m"
  shows "\<exists>s2 b. mutate s (Some p) m = Some (s2, b)"
proof -
  have n0: "0 \<le> int (length (elements c))" "int (length (elements c)) \<le> int (length (elements c))"
    by simp_all
  have rem: "\<exists>s2 b. removeAt s (Some p) i = Some (s2, b)" for i
  proof (cases "0 \<le> i \<and> i < int (length (elements c))")
    case True
    then have i: "0 \<le> i" "i < int (length (elements c))" by simp_all
    from removeAt_in_range [OF ld i] show ?thesis by blast
  next
    case False
    then show ?thesis using ld by (auto simp: removeAt_def)
  qed
  show ?thesis
  proof (cases m)
    case (Insert i v)
    then have i: "0 \<le> i" "i \<le> int (length (elements c))" using m by simp_all
    from insert_arr_in_range [OF ld i, of v] show ?thesis using Insert by auto
  next
    case (Append v)
    from insert_arr_in_range [OF ld n0, of v] show ?thesis
      using Append ld by (auto simp: append_arr_def)
  next
    case (Prepend v)
    have i: "(0::int) \<le> 0" "0 \<le> int (length (elements c))" by simp_all
    from insert_arr_in_range [OF ld i, of v] show ?thesis
      using Prepend by (auto simp: prepend_def)
  next
    case (RemoveAt i)
    then show ?thesis using rem [of i] by simp
  next
    case (TakeAt i)
    show ?thesis
    proof (cases "0 \<le> i \<and> i < int (length (elements c))")
      case True
      then have i: "0 \<le> i" "i < int (length (elements c))" by simp_all
      from takeAt_in_range [OF ld i] show ?thesis using TakeAt by auto
    next
      case False
      then show ?thesis using TakeAt ld by (auto simp: takeAt_def)
    qed
  next
    case (Replace i v)
    then have i: "0 \<le> i" "i < int (length (elements c))" using m by simp_all
    from replace_in_range [OF ld i, of v] show ?thesis using Replace by auto
  qed
qed

lemma mutate_None_returns:
  assumes "in_contract 0 m"
  shows "\<exists>s2 b. mutate s None m = Some (s2, b)"
proof (cases m)
  case (Insert i v)
  then have "i = 0" using assms by simp
  then show ?thesis using Insert by (simp add: insert_arr_None)
next
  case (Replace i v)
  then have False using assms by auto
  then show ?thesis ..
qed (simp_all add: append_arr_def prepend_def insert_arr_None removeAt_def takeAt_def)

section \<open>The claims\<close>

text \<open>
  Claim C1. Copy-on-write isolation. For every live handle \<open>A\<close> on an array of size
  \<open>n\<close>, copying it gives a handle \<open>B\<close>; every mutation of \<open>B\<close> within its contract
  returns; and any mutation of \<open>B\<close> that returns (\<^verbatim>\<open>insert\<close>, \<^verbatim>\<open>append\<close>,
  \<^verbatim>\<open>prepend\<close>, \<^verbatim>\<open>removeAt\<close>, \<^verbatim>\<open>takeAt\<close> or \<^verbatim>\<open>replace\<close>) leaves the size of
  \<open>A\<close> and \<^verbatim>\<open>at(i)\<close> of \<open>A\<close>, for every \<open>i\<close>, as they were. In the scenario of the
  claim, \<open>H1 = [1, 2]\<close>, \<open>H2\<close> a copy of \<open>H1\<close> and \<^verbatim>\<open>H2.append(3)\<close>: \<open>H1\<close> is still
  \<open>[1, 2]\<close> and \<open>H2\<close> is \<open>[1, 2, 3]\<close>.
\<close>

theorem copy_on_write_isolation:
  assumes lv: "live s A" and sz: "size_arr s A = Some n"
  shows "\<exists>s1 B. copy s A = Some (s1, B)
           \<and> (\<forall>m. in_contract n m \<longrightarrow> (\<exists>s2 B'. mutate s1 B m = Some (s2, B')))
           \<and> (\<forall>m s2 B'. mutate s1 B m = Some (s2, B') \<longrightarrow>
                 size_arr s2 A = size_arr s A \<and> (\<forall>i. at_arr s2 A i = at_arr s A i))"
proof (cases A)
  case None
  then have "n = 0" using sz by (simp add: size_arr_def)
  then show ?thesis
    using None mutate_None_returns by (simp add: copy_def size_arr_def at_arr_def)
next
  case (Some p)
  then obtain c where ld: "load s p = Some c" and r: "1 \<le> ref c"
    using lv liveD by blast
  have n: "n = int (length (elements c))" using sz Some ld by (simp add: size_arr_def)
  have lt: "p < length s" using ld by (rule load_lt)
  let ?c1 = "c\<lparr>ref := ref c + 1\<rparr>"
  let ?s1 = "s[p := Some ?c1]"
  have cp: "copy s (Some p) = Some (?s1, Some p)" using ld by (rule copy_Some)
  have l1: "load ?s1 p = Some ?c1" using lt by (simp add: load_update)
  have sh: "ref ?c1 \<noteq> 1" using r by simp
  have ret: "\<exists>s2 B'. mutate ?s1 (Some p) m = Some (s2, B')" if "in_contract n m" for m
    using mutate_returns [OF l1, of m] that n by simp
  have fr: "size_arr s2 A = size_arr s A \<and> (\<forall>i. at_arr s2 A i = at_arr s A i)"
    if "mutate ?s1 (Some p) m = Some (s2, b)" for m s2 b
  proof -
    have "encoded s2 (Some p) = encoded s (Some p)"
      using mutate_shared_frame [OF l1 sh that] ld by (simp add: encoded_def)
    then show ?thesis using Some by (simp add: size_arr_encoded at_arr_encoded)
  qed
  show ?thesis using Some cp ret fr by blast
qed

theorem copy_on_write_isolation_witness:
  "live store_12 (Some 0) \<and> size_arr store_12 (Some 0) = Some 2
   \<and> copy store_12 (Some 0) = Some ([Some \<lparr>ref = 2, elements = [CDouble 1, CDouble 2]\<rparr>], Some 0)
   \<and> in_contract 2 (Append (JDouble 3))
   \<and> mutate [Some \<lparr>ref = 2, elements = [CDouble 1, CDouble 2]\<rparr>] (Some 0) (Append (JDouble 3))
       = Some ([Some \<lparr>ref = 1, elements = [CDouble 1, CDouble 2]\<rparr>,
                Some \<lparr>ref = 1, elements = [CDouble 1, CDouble 2, CDouble 3]\<rparr>], Some 1)
   \<and> size_arr [Some \<lparr>ref = 1, elements = [CDouble 1, CDouble 2]\<rparr>,
                Some \<lparr>ref = 1, elements = [CDouble 1, CDouble 2, CDouble 3]\<rparr>] (Some 0)
       = size_arr store_12 (Some 0)
   \<and> at_arr [Some \<lparr>ref = 1, elements = [CDouble 1, CDouble 2]\<rparr>,
                Some \<lparr>ref = 1, elements = [CDouble 1, CDouble 2, CDouble 3]\<rparr>] (Some 0) 1
       = at_arr store_12 (Some 0) 1
   \<and> at_arr store_12 (Some 0) 0 = Some (JDouble 1)
   \<and> at_arr store_12 (Some 0) 1 = Some (JDouble 2)
   \<and> iteration [Some \<lparr>ref = 1, elements = [CDouble 1, CDouble 2]\<rparr>,
                Some \<lparr>ref = 1, elements = [CDouble 1, CDouble 2, CDouble 3]\<rparr>] (Some 0)
       = Some [JDouble 1, JDouble 2]
   \<and> iteration [Some \<lparr>ref = 1, elements = [CDouble 1, CDouble 2]\<rparr>,
                Some \<lparr>ref = 1, elements = [CDouble 1, CDouble 2, CDouble 3]\<rparr>] (Some 1)
       = Some [JDouble 1, JDouble 2, JDouble 3]"
proof -
  let ?s1 = "[Some \<lparr>ref = 2, elements = [CDouble 1, CDouble 2]\<rparr>]"
  let ?s2 = "[Some \<lparr>ref = 1, elements = [CDouble 1, CDouble 2]\<rparr>,
              Some \<lparr>ref = 1, elements = [CDouble 1, CDouble 2, CDouble 3]\<rparr>]"
  have h: "live store_12 (Some 0)"
    by (simp add: live_def store_12_def load_def)
  have c: "copy store_12 (Some 0) = Some (?s1, Some 0)"
    by (simp add: copy_def ref_ref_def store_12_def load_def)
  have m: "mutate ?s1 (Some 0) (Append (JDouble 3)) = Some (?s2, Some 1)"
    by (simp add: append_arr_def insert_arr_def load_def detach_def size_arr_def c_detach_def
        new_container_def assign_ptr_def ref_ref_def ref_deref_def edit_def insertAt_def
        isUndefined_def)
  have v: "size_arr store_12 (Some 0) = Some 2"
    "at_arr store_12 (Some 0) 0 = Some (JDouble 1)" "at_arr store_12 (Some 0) 1 = Some (JDouble 2)"
    by (simp_all add: size_arr_def at_arr_def store_12_def load_def valueAt_def)
  have it: "iteration ?s2 (Some 0) = Some [JDouble 1, JDouble 2]"
    "iteration ?s2 (Some 1) = Some [JDouble 1, JDouble 2, JDouble 3]"
    by (simp_all add: iteration_def iterate.simps size_arr_def at_arr_def load_def valueAt_def)
  from copy_on_write_isolation [OF h v(1)] obtain s1 B where
    c1: "copy store_12 (Some 0) = Some (s1, B)" and
    fr: "\<And>m s2 B'. mutate s1 B m = Some (s2, B') \<Longrightarrow>
           size_arr s2 (Some 0) = size_arr store_12 (Some 0)
           \<and> (\<forall>i. at_arr s2 (Some 0) i = at_arr store_12 (Some 0) i)"
    by blast
  have "s1 = ?s1" "B = Some 0" using c c1 by simp_all
  with fr [of "Append (JDouble 3)" ?s2 "Some 1"] m
  have "size_arr ?s2 (Some 0) = size_arr store_12 (Some 0)
        \<and> (\<forall>i. at_arr ?s2 (Some 0) i = at_arr store_12 (Some 0) i)"
    by blast
  then show ?thesis using h c m v it by simp
qed

text \<open>
  Claim C2, as the code has it. For an array of size \<open>n\<close>, a position \<open>i\<close> with
  \<open>0 \<le> i \<le> n\<close> and a value \<open>v\<close>, \<^verbatim>\<open>insert(i, v)\<close> returns an array of size
  \<open>n + 1\<close> in which \<^verbatim>\<open>at(i)\<close> is \<open>v\<close> when \<open>v\<close> is not Undefined, and Null
  when \<open>v\<close> is Undefined. The claim as written, that \<^verbatim>\<open>at(i)\<close> is \<open>v\<close> for every
  value, fails for Undefined: inserted at position 0 of the empty array, it reads back
  as Null.
\<close>

theorem insert_then_at:
  assumes sz: "size_arr s a = Some n" and i: "0 \<le> i" "i \<le> n"
  shows "\<exists>s' a'. insert_arr s a i v = Some (s', a')
           \<and> at_arr s' a' i = Some (if isUndefined v then JNull else v)
           \<and> size_arr s' a' = Some (n + 1)"
proof -
  from size_arr_encodedD [OF sz] obtain es where
    en: "encoded s a = Some es" and n: "n = int (length es)" by blast
  have i': "0 \<le> i" "i \<le> int (length es)" using i n by simp_all
  have k: "nat i \<le> length es" using i' by linarith
  let ?x = "if isUndefined v then CNull else fromJsonValue v"
  from insert_arr_encoded [OF en i', of v] obtain s' a' where
    r: "insert_arr s a i v = Some (s', a')" and
    en': "encoded s' a' = Some (take (nat i) es @ ?x # drop (nat i) es)"
    by blast
  have "length (take (nat i) es @ ?x # drop (nat i) es) = Suc (length es)"
    using k by simp
  moreover have "(take (nat i) es @ ?x # drop (nat i) es) ! nat i = ?x"
    using k by (rule nth_inserted)
  ultimately show ?thesis
    using r en' i' n
    by (simp add: at_arr_encoded size_arr_encoded fromJsonValue_inverse del: length_append)
qed

theorem insert_then_at_witness:
  "size_arr store_12 (Some 0) = Some 2 \<and> (0::int) \<le> 1 \<and> (1::int) \<le> 2
   \<and> insert_arr store_12 (Some 0) 1 (JString ''x'')
       = Some ([Some \<lparr>ref = 1, elements = [CDouble 1, CString ''x'', CDouble 2]\<rparr>], Some 0)
   \<and> at_arr [Some \<lparr>ref = 1, elements = [CDouble 1, CString ''x'', CDouble 2]\<rparr>] (Some 0) 1
       = Some (JString ''x'')
   \<and> size_arr [Some \<lparr>ref = 1, elements = [CDouble 1, CString ''x'', CDouble 2]\<rparr>] (Some 0)
       = Some 3"
proof -
  have h: "size_arr store_12 (Some 0) = Some 2"
    by (simp add: size_arr_def store_12_def load_def)
  have r: "insert_arr store_12 (Some 0) 1 (JString ''x'')
       = Some ([Some \<lparr>ref = 1, elements = [CDouble 1, CString ''x'', CDouble 2]\<rparr>], Some 0)"
    by (simp add: insert_arr_def store_12_def load_def detach_def size_arr_def c_detach_def
        assign_ptr_def edit_def insertAt_def isUndefined_def)
  show ?thesis
    using h r insert_then_at [OF h, of 1 "JString ''x''"] by (auto simp: isUndefined_def)
qed

theorem insert_undefined_counterexample:
  "insert_arr [] None 0 JUndefined = Some ([Some \<lparr>ref = 1, elements = [CNull]\<rparr>], Some 0)
   \<and> at_arr [Some \<lparr>ref = 1, elements = [CNull]\<rparr>] (Some 0) 0 = Some JNull
   \<and> at_arr [Some \<lparr>ref = 1, elements = [CNull]\<rparr>] (Some 0) 0 \<noteq> Some JUndefined"
  by (simp add: insert_arr_None isUndefined_def at_arr_def load_def valueAt_def)

text \<open>
  Claim C3. For an array of size \<open>n\<close> and a position \<open>i\<close> with \<open>0 \<le> i \<le> n\<close>,
  \<^verbatim>\<open>insert(i, Undefined)\<close> stores the encoding of Null at position \<open>i\<close>, and
  \<^verbatim>\<open>at(i)\<close> then returns Null; \<^verbatim>\<open>append(Undefined)\<close> does so at position \<open>n\<close>
  and \<^verbatim>\<open>prepend(Undefined)\<close> at position 0.
\<close>

theorem undefined_stored_as_null:
  assumes sz: "size_arr s a = Some n" and i: "0 \<le> i" "i \<le> n"
  shows "(\<exists>s' a' es. insert_arr s a i JUndefined = Some (s', a') \<and> encoded s' a' = Some es
            \<and> es ! nat i = CNull \<and> at_arr s' a' i = Some JNull)
       \<and> (\<exists>s' a' es. append_arr s a JUndefined = Some (s', a') \<and> encoded s' a' = Some es
            \<and> es ! nat n = CNull \<and> at_arr s' a' n = Some JNull)
       \<and> (\<exists>s' a' es. prepend s a JUndefined = Some (s', a') \<and> encoded s' a' = Some es
            \<and> es ! 0 = CNull \<and> at_arr s' a' 0 = Some JNull)"
proof -
  from size_arr_encodedD [OF sz] obtain es where
    en: "encoded s a = Some es" and n: "n = int (length es)" by blast
  have at_i: "\<exists>s' a' es'. insert_arr s a j JUndefined = Some (s', a') \<and> encoded s' a' = Some es'
            \<and> es' ! nat j = CNull \<and> at_arr s' a' j = Some JNull"
    if j: "0 \<le> j" "j \<le> n" for j
  proof -
    have j': "0 \<le> j" "j \<le> int (length es)" using j n by simp_all
    have k: "nat j \<le> length es" using j' by linarith
    from insert_arr_encoded [OF en j', of JUndefined] obtain s' a' where
      r: "insert_arr s a j JUndefined = Some (s', a')" and
      en': "encoded s' a' = Some (take (nat j) es @ CNull # drop (nat j) es)"
      by (auto simp: isUndefined_def)
    have "length (take (nat j) es @ CNull # drop (nat j) es) = Suc (length es)"
      using k by simp
    moreover have "(take (nat j) es @ CNull # drop (nat j) es) ! nat j = CNull"
      using k by (rule nth_inserted)
    ultimately show ?thesis
      using r en' j' by (simp add: at_arr_encoded del: length_append)
  qed
  have "0 \<le> n" using n by simp
  show ?thesis
    using at_i [OF i] at_i [of n] at_i [of 0] \<open>0 \<le> n\<close>
    by (simp add: append_arr_insert [OF sz] prepend_def)
qed

theorem undefined_stored_as_null_witness:
  "size_arr store_12 (Some 0) = Some 2 \<and> (0::int) \<le> 1 \<and> (1::int) \<le> 2
   \<and> insert_arr store_12 (Some 0) 1 JUndefined
       = Some ([Some \<lparr>ref = 1, elements = [CDouble 1, CNull, CDouble 2]\<rparr>], Some 0)
   \<and> at_arr [Some \<lparr>ref = 1, elements = [CDouble 1, CNull, CDouble 2]\<rparr>] (Some 0) 1 = Some JNull"
proof -
  have h: "size_arr store_12 (Some 0) = Some 2"
    by (simp add: size_arr_def store_12_def load_def)
  have r: "insert_arr store_12 (Some 0) 1 JUndefined
       = Some ([Some \<lparr>ref = 1, elements = [CDouble 1, CNull, CDouble 2]\<rparr>], Some 0)"
    by (simp add: insert_arr_def store_12_def load_def detach_def size_arr_def c_detach_def
        assign_ptr_def edit_def insertAt_def isUndefined_def)
  show ?thesis
    using h r undefined_stored_as_null [OF h, of 1] by auto
qed

text \<open>
  Claim C4. For an array of size \<open>n\<close>, \<^verbatim>\<open>takeAt(i)\<close> returns the value
  \<^verbatim>\<open>at(i)\<close> returns before the call, and leaves the store and the handle that
  \<^verbatim>\<open>removeAt(i)\<close> leaves. When the handle has no container, or \<open>i\<close> is negative
  or at least \<open>n\<close>, the value is Undefined and neither the store nor the handle
  changes.
\<close>

theorem takeAt_at_removeAt:
  assumes sz: "size_arr s a = Some n"
  shows "\<exists>s' a' v. at_arr s a i = Some v \<and> removeAt s a i = Some (s', a')
           \<and> takeAt s a i = Some (s', a', v)
           \<and> (a = None \<or> i < 0 \<or> n \<le> i \<longrightarrow> v = JUndefined \<and> s' = s \<and> a' = a)"
proof (cases a)
  case None
  then show ?thesis by (simp add: at_arr_def removeAt_def takeAt_def)
next
  case (Some p)
  then obtain c where ld: "load s p = Some c" and n: "n = int (length (elements c))"
    using size_arr_SomeD [OF sz] by auto
  show ?thesis
  proof (cases "0 \<le> i \<and> i < n")
    case False
    then show ?thesis
      using Some ld n by (auto simp: at_arr_load [OF ld] removeAt_def takeAt_def)
  next
    case True
    then have i: "0 \<le> i" "i < int (length (elements c))" using n by simp_all
    from takeAt_in_range [OF ld i] obtain s' q where
      "removeAt s (Some p) i = Some (s', Some q)"
      "takeAt s (Some p) i = Some (s', Some q, fromTrustedCbor (elements c ! nat i))"
      by blast
    then show ?thesis
      using True Some i n by (simp add: at_arr_load [OF ld])
  qed
qed

theorem takeAt_at_removeAt_witness:
  "size_arr store_123 (Some 0) = Some 3
   \<and> at_arr store_123 (Some 0) 0 = Some (JDouble 1)
   \<and> takeAt store_123 (Some 0) 0 = Some ([Some \<lparr>ref = 1, elements = [CDouble 2, CDouble 3]\<rparr>], Some 0, JDouble 1)
   \<and> removeAt store_123 (Some 0) 0 = Some ([Some \<lparr>ref = 1, elements = [CDouble 2, CDouble 3]\<rparr>], Some 0)
   \<and> takeAt store_123 (Some 0) 3 = Some (store_123, Some 0, JUndefined)
   \<and> takeAt store_123 None 0 = Some (store_123, None, JUndefined)"
proof -
  have h: "size_arr store_123 (Some 0) = Some 3"
    by (simp add: size_arr_def store_123_def load_def)
  have h0: "size_arr store_123 None = Some 0"
    by (simp add: size_arr_def)
  have v: "at_arr store_123 (Some 0) 0 = Some (JDouble 1)"
    by (simp add: at_arr_def store_123_def load_def valueAt_def)
  have r: "removeAt store_123 (Some 0) 0 = Some ([Some \<lparr>ref = 1, elements = [CDouble 2, CDouble 3]\<rparr>], Some 0)"
    by (simp add: removeAt_def store_123_def load_def detach_def size_arr_def c_detach_def
        assign_ptr_def edit_def c_removeAt_def)
  show ?thesis
    using h v r takeAt_at_removeAt [OF h, of 0] takeAt_at_removeAt [OF h, of 3]
      takeAt_at_removeAt [OF h0, of 0]
    by auto
qed

text \<open>
  Claim C5. For an array of size \<open>n\<close>, \<^verbatim>\<open>removeAt(i)\<close> with \<open>0 \<le> i < n\<close> returns
  an array of size \<open>n - 1\<close> that has, below \<open>i\<close>, the elements the array had at the
  same positions and, from \<open>i\<close> on, the elements it had one position higher, so the
  remaining elements keep their order. With any other \<open>i\<close>, which includes every
  \<open>i\<close> when the handle has no container, it changes neither the store nor the handle.
\<close>

theorem removeAt_shifts:
  assumes sz: "size_arr s a = Some n"
  shows "(0 \<le> i \<and> i < n \<longrightarrow>
           (\<exists>s' a'. removeAt s a i = Some (s', a') \<and> size_arr s' a' = Some (n - 1)
              \<and> (\<forall>j. 0 \<le> j \<and> j < i \<longrightarrow> at_arr s' a' j = at_arr s a j)
              \<and> (\<forall>j. i \<le> j \<and> j < n - 1 \<longrightarrow> at_arr s' a' j = at_arr s a (j + 1))))
       \<and> (\<not> (0 \<le> i \<and> i < n) \<longrightarrow> removeAt s a i = Some (s, a))"
proof (cases a)
  case None
  then show ?thesis using sz by (simp add: removeAt_def size_arr_def)
next
  case (Some p)
  then obtain c where ld: "load s p = Some c" and n: "n = int (length (elements c))"
    using size_arr_SomeD [OF sz] by auto
  show ?thesis
  proof (cases "0 \<le> i \<and> i < n")
    case False
    then show ?thesis using Some ld n by (auto simp: removeAt_def)
  next
    case True
    then have i: "0 \<le> i" "i < int (length (elements c))" using n by simp_all
    from removeAt_in_range [OF ld i] obtain s' q c' where
      r: "removeAt s (Some p) i = Some (s', Some q)" and
      l': "load s' q = Some c'" and
      e': "elements c' = take (nat i) (elements c) @ drop (Suc (nat i)) (elements c)"
      by blast
    have len: "int (length (elements c')) = n - 1"
      using e' i n by (simp add: min_def)
    have lo: "at_arr s' (Some q) j = at_arr s (Some p) j" if "0 \<le> j \<and> j < i" for j
    proof -
      have "nat j < nat i" "nat i < length (elements c)" using that i by linarith+
      then have "elements c' ! nat j = elements c ! nat j"
        unfolding e' by (rule nth_remove_lo)
      then show ?thesis
        using that i len n by (simp add: at_arr_load [OF l'] at_arr_load [OF ld])
    qed
    have hi: "at_arr s' (Some q) j = at_arr s (Some p) (j + 1)" if "i \<le> j \<and> j < n - 1" for j
    proof -
      have "nat i \<le> nat j" "nat j < length (elements c) - 1"
        using that i n by linarith+
      then have "elements c' ! nat j = elements c ! Suc (nat j)"
        unfolding e' by (rule nth_remove_hi)
      moreover have "nat (j + 1) = Suc (nat j)" using that i by linarith
      ultimately show ?thesis
        using that i len n by (simp add: at_arr_load [OF l'] at_arr_load [OF ld])
    qed
    show ?thesis
      using True Some r lo hi len by (simp add: size_arr_load [OF l'])
  qed
qed

theorem removeAt_shifts_witness:
  "size_arr store_123 (Some 0) = Some 3
   \<and> removeAt store_123 (Some 0) 1 = Some ([Some \<lparr>ref = 1, elements = [CDouble 1, CDouble 3]\<rparr>], Some 0)
   \<and> size_arr [Some \<lparr>ref = 1, elements = [CDouble 1, CDouble 3]\<rparr>] (Some 0) = Some 2
   \<and> at_arr [Some \<lparr>ref = 1, elements = [CDouble 1, CDouble 3]\<rparr>] (Some 0) 0 = at_arr store_123 (Some 0) 0
   \<and> at_arr [Some \<lparr>ref = 1, elements = [CDouble 1, CDouble 3]\<rparr>] (Some 0) 1 = at_arr store_123 (Some 0) 2
   \<and> removeAt store_123 (Some 0) 3 = Some (store_123, Some 0)"
proof -
  have h: "size_arr store_123 (Some 0) = Some 3"
    by (simp add: size_arr_def store_123_def load_def)
  have r: "removeAt store_123 (Some 0) 1 = Some ([Some \<lparr>ref = 1, elements = [CDouble 1, CDouble 3]\<rparr>], Some 0)"
    by (simp add: removeAt_def store_123_def load_def detach_def size_arr_def c_detach_def
        assign_ptr_def edit_def c_removeAt_def)
  show ?thesis
    using h r removeAt_shifts [OF h, of 1] removeAt_shifts [OF h, of 3] by auto
qed

text \<open>
  Claim C6. For an array of size \<open>n\<close>, \<^verbatim>\<open>at(i)\<close> with \<open>i < 0\<close> or \<open>i \<ge> n\<close> is
  Undefined; \<^verbatim>\<open>first()\<close> is \<^verbatim>\<open>at(0)\<close> and \<^verbatim>\<open>last()\<close> is \<^verbatim>\<open>at(n - 1)\<close>, both
  Undefined when the array is empty. \<^verbatim>\<open>at\<close>, \<^verbatim>\<open>first\<close> and \<^verbatim>\<open>last\<close> are const
  member functions: they read the store and return only a value, so the array is as it
  was.
\<close>

theorem at_out_of_range:
  assumes sz: "size_arr s a = Some n"
  shows "(i < 0 \<or> n \<le> i \<longrightarrow> at_arr s a i = Some JUndefined)
       \<and> first s a = at_arr s a 0
       \<and> last_arr s a = at_arr s a (n - 1)
       \<and> (n = 0 \<longrightarrow> first s a = Some JUndefined \<and> last_arr s a = Some JUndefined)"
proof (cases a)
  case None
  then show ?thesis using sz by (simp add: at_arr_def first_def last_arr_def size_arr_def)
next
  case (Some p)
  then obtain c where ld: "load s p = Some c" and n: "n = int (length (elements c))"
    using size_arr_SomeD [OF sz] by auto
  show ?thesis
    using Some ld n by (auto simp: at_arr_load [OF ld] first_def last_arr_def)
qed

theorem at_out_of_range_witness:
  "size_arr store_123 (Some 0) = Some 3
   \<and> at_arr store_123 (Some 0) 3 = Some JUndefined
   \<and> at_arr store_123 (Some 0) (- 1) = Some JUndefined
   \<and> first store_123 (Some 0) = Some (JDouble 1)
   \<and> last_arr store_123 (Some 0) = Some (JDouble 3)
   \<and> size_arr store_empty (Some 0) = Some 0
   \<and> first store_empty (Some 0) = Some JUndefined
   \<and> last_arr store_empty (Some 0) = Some JUndefined"
proof -
  have h: "size_arr store_123 (Some 0) = Some 3"
    by (simp add: size_arr_def store_123_def load_def)
  have h0: "size_arr store_empty (Some 0) = Some 0"
    by (simp add: size_arr_def store_empty_def load_def)
  have v: "at_arr store_123 (Some 0) 0 = Some (JDouble 1)"
     "at_arr store_123 (Some 0) 2 = Some (JDouble 3)"
    by (simp_all add: at_arr_def store_123_def load_def valueAt_def)
  show ?thesis
    using h h0 v at_out_of_range [OF h, of 3] at_out_of_range [OF h, of "- 1"]
      at_out_of_range [OF h0, of 0]
    by auto
qed

text \<open>
  Claim C7. For arrays \<open>A\<close>, \<open>B\<close> and \<open>C\<close> of one store, \<open>A == B\<close> holds exactly
  when they have the same size and \<^verbatim>\<open>at(i)\<close> agrees on them at every index below it;
  equality is reflexive, symmetric and transitive; two handles on the same container
  are equal, and so are two arrays of size 0.
\<close>

theorem comparesEqual_equivalence:
  assumes "size_arr s A = Some na" and "size_arr s B = Some nb" and "size_arr s C = Some nc"
  shows "comparesEqual s A B
           = Some (na = nb \<and> (\<forall>i. 0 \<le> i \<and> i < na \<longrightarrow> at_arr s A i = at_arr s B i))
       \<and> comparesEqual s A A = Some True
       \<and> comparesEqual s B A = comparesEqual s A B
       \<and> (comparesEqual s A B = Some True \<and> comparesEqual s B C = Some True
            \<longrightarrow> comparesEqual s A C = Some True)
       \<and> (A = B \<longrightarrow> comparesEqual s A B = Some True)
       \<and> (na = 0 \<and> nb = 0 \<longrightarrow> comparesEqual s A B = Some True)"
proof -
  from size_arr_encodedD [OF assms(1)] obtain ea where
    a: "encoded s A = Some ea" and na: "na = int (length ea)" by blast
  from size_arr_encodedD [OF assms(2)] obtain eb where
    b: "encoded s B = Some eb" and nb: "nb = int (length eb)" by blast
  from size_arr_encodedD [OF assms(3)] obtain ec where
    c: "encoded s C = Some ec" and nc: "nc = int (length ec)" by blast
  have ab: "comparesEqual s A B = Some (ea = eb)" using a b by (rule comparesEqual_encoded)
  have ba: "comparesEqual s B A = Some (eb = ea)" using b a by (rule comparesEqual_encoded)
  have bc: "comparesEqual s B C = Some (eb = ec)" using b c by (rule comparesEqual_encoded)
  have ac: "comparesEqual s A C = Some (ea = ec)" using a c by (rule comparesEqual_encoded)
  have aa: "comparesEqual s A A = Some True" by (simp add: comparesEqual_def)
  have "(ea = eb) = (na = nb \<and> (\<forall>i. 0 \<le> i \<and> i < na \<longrightarrow> at_arr s A i = at_arr s B i))"
    using encoded_eq_iff [OF a b] assms(1,2) na by simp
  then show ?thesis
    using ab ba bc ac aa na nb by auto
qed

theorem comparesEqual_equivalence_witness:
  "size_arr store_eq (Some 0) = Some 1 \<and> size_arr store_eq (Some 1) = Some 1
   \<and> size_arr store_eq (Some 2) = Some 1 \<and> size_arr store_eq (Some 3) = Some 1
   \<and> size_arr store_eq (Some 4) = Some 0 \<and> size_arr store_eq None = Some 0
   \<and> comparesEqual store_eq (Some 0) (Some 1) = Some True
   \<and> comparesEqual store_eq (Some 1) (Some 0) = Some True
   \<and> comparesEqual store_eq (Some 1) (Some 2) = Some True
   \<and> comparesEqual store_eq (Some 0) (Some 2) = Some True
   \<and> comparesEqual store_eq (Some 0) (Some 0) = Some True
   \<and> comparesEqual store_eq (Some 0) (Some 3) = Some False
   \<and> at_arr store_eq (Some 0) 0 = Some (JDouble 2)
   \<and> at_arr store_eq (Some 3) 0 = Some (JString ''2'')
   \<and> comparesEqual store_eq None (Some 4) = Some True"
proof -
  have h: "size_arr store_eq (Some 0) = Some 1" "size_arr store_eq (Some 1) = Some 1"
    "size_arr store_eq (Some 2) = Some 1" "size_arr store_eq (Some 3) = Some 1"
    "size_arr store_eq (Some 4) = Some 0" "size_arr store_eq None = Some 0"
    by (simp_all add: size_arr_def store_eq_def load_def)
  have v: "at_arr store_eq (Some 0) 0 = Some (JDouble 2)"
    "at_arr store_eq (Some 1) 0 = Some (JDouble 2)"
    "at_arr store_eq (Some 2) 0 = Some (JDouble 2)"
    "at_arr store_eq (Some 3) 0 = Some (JString ''2'')"
    by (simp_all add: at_arr_def store_eq_def load_def valueAt_def)
  have e: "comparesEqual store_eq (Some 0) (Some 1) = Some True"
    "comparesEqual store_eq (Some 1) (Some 0) = Some True"
    "comparesEqual store_eq (Some 1) (Some 2) = Some True"
    "comparesEqual store_eq (Some 0) (Some 3) = Some False"
    by (simp_all add: comparesEqual_def store_eq_def load_def equal_from.simps valueAt_def)
  from comparesEqual_equivalence [OF h(1) h(2) h(3)] e
  have ac: "comparesEqual store_eq (Some 0) (Some 2) = Some True" by blast
  from comparesEqual_equivalence [OF h(1) h(1) h(1)]
  have aa: "comparesEqual store_eq (Some 0) (Some 0) = Some True" by blast
  from comparesEqual_equivalence [OF h(6) h(5) h(5)]
  have ne: "comparesEqual store_eq None (Some 4) = Some True" by blast
  show ?thesis
    using h v e ac aa ne by simp
qed

text \<open>
  Claim C8. A handle with no container and a handle on a container whose sequence is
  empty answer every read alike: size 0, \<^verbatim>\<open>isEmpty\<close> true, equal to each other in
  both orders, an empty iteration, Undefined at every index and from \<^verbatim>\<open>first\<close> and
  \<^verbatim>\<open>last\<close>, no value contained, and the same answer when compared with any third
  array.
\<close>

theorem absent_and_empty_backend_agree:
  assumes ld: "load s p = Some c" and em: "elements c = []"
  shows "size_arr s (Some p) = Some 0 \<and> size_arr s None = Some 0
       \<and> isEmpty s (Some p) = Some True \<and> isEmpty s None = Some True
       \<and> comparesEqual s (Some p) None = Some True
       \<and> comparesEqual s None (Some p) = Some True
       \<and> iteration s (Some p) = Some [] \<and> iteration s None = Some []
       \<and> (\<forall>i. at_arr s (Some p) i = Some JUndefined \<and> at_arr s None i = Some JUndefined)
       \<and> first s (Some p) = first s None
       \<and> last_arr s (Some p) = last_arr s None
       \<and> (\<forall>v. contains s (Some p) v = Some False \<and> contains s None v = Some False)
       \<and> (\<forall>B n. size_arr s B = Some n \<longrightarrow>
             comparesEqual s (Some p) B = comparesEqual s None B
             \<and> comparesEqual s B (Some p) = comparesEqual s B None)"
proof -
  have ep: "encoded s (Some p) = Some []" using ld em by (simp add: encoded_def)
  have en: "encoded s None = Some []" by (simp add: encoded_def)
  have sz: "size_arr s (Some p) = Some 0" "size_arr s None = Some 0"
    using ep en by (simp_all add: size_arr_encoded)
  have cmp: "comparesEqual s (Some p) B = comparesEqual s None B
             \<and> comparesEqual s B (Some p) = comparesEqual s B None"
    if "size_arr s B = Some n" for B n
  proof -
    from size_arr_encodedD [OF that] obtain eb where b: "encoded s B = Some eb" by blast
    show ?thesis
      by (simp add: comparesEqual_encoded [OF ep b] comparesEqual_encoded [OF en b]
          comparesEqual_encoded [OF b ep] comparesEqual_encoded [OF b en])
  qed
  have "last_arr s (Some p) = Some JUndefined" "last_arr s None = Some JUndefined"
    using ld em by (simp_all add: last_arr_def at_arr_def)
  then show ?thesis
    using ep en sz cmp
    by (auto simp: isEmpty_encoded at_arr_encoded first_def iteration_encoded contains_empty
        comparesEqual_encoded [OF ep en] comparesEqual_encoded [OF en ep])
qed

theorem absent_and_empty_backend_agree_witness:
  "load store_empty 0 = Some \<lparr>ref = 1, elements = []\<rparr>
   \<and> size_arr store_empty (Some 0) = Some 0 \<and> size_arr store_empty None = Some 0
   \<and> isEmpty store_empty (Some 0) = Some True \<and> isEmpty store_empty None = Some True
   \<and> comparesEqual store_empty (Some 0) None = Some True
   \<and> comparesEqual store_empty None (Some 0) = Some True
   \<and> iteration store_empty (Some 0) = Some [] \<and> iteration store_empty None = Some []
   \<and> comparesEqual store_empty (Some 0) (Some 0) = comparesEqual store_empty None (Some 0)"
proof -
  have ld: "load store_empty 0 = Some \<lparr>ref = 1, elements = []\<rparr>"
    by (simp add: store_empty_def load_def)
  have em: "elements \<lparr>ref = 1, elements = []\<rparr> = []" by simp
  have sz: "size_arr store_empty (Some 0) = Some 0"
    by (simp add: size_arr_def ld)
  from absent_and_empty_backend_agree [OF ld em]
  have all: "size_arr store_empty (Some 0) = Some 0 \<and> size_arr store_empty None = Some 0
       \<and> isEmpty store_empty (Some 0) = Some True \<and> isEmpty store_empty None = Some True
       \<and> comparesEqual store_empty (Some 0) None = Some True
       \<and> comparesEqual store_empty None (Some 0) = Some True
       \<and> iteration store_empty (Some 0) = Some [] \<and> iteration store_empty None = Some []"
    and cmp: "\<And>B n. size_arr store_empty B = Some n \<Longrightarrow>
             comparesEqual store_empty (Some 0) B = comparesEqual store_empty None B"
    by blast+
  show ?thesis using ld all cmp [OF sz] by simp
qed

text \<open>
  Claim C9. The hash of an array is the combiner folded over its elements in
  iteration order, starting from the seed; two arrays that compare equal iterate over
  the same elements and so have the same hash for the same seed, whatever the combiner.
  Two handles on one container compare equal, so this covers them.
\<close>

theorem qHash_respects_equality:
  assumes "size_arr s A = Some na" and "size_arr s B = Some nb"
    and eq: "comparesEqual s A B = Some True"
  shows "\<exists>vs. iteration s A = Some vs \<and> iteration s B = Some vs
           \<and> qHash combine s A seed = Some (foldl combine seed vs)
           \<and> qHash combine s B seed = Some (foldl combine seed vs)"
proof -
  from size_arr_encodedD [OF assms(1)] obtain ea where a: "encoded s A = Some ea" by blast
  from size_arr_encodedD [OF assms(2)] obtain eb where b: "encoded s B = Some eb" by blast
  have "ea = eb" using eq comparesEqual_encoded [OF a b] by simp
  then show ?thesis
    using a b by (simp add: iteration_encoded qHash_encoded)
qed

theorem qHash_respects_equality_witness:
  "size_arr store_eq (Some 0) = Some 1 \<and> size_arr store_eq (Some 1) = Some 1
   \<and> comparesEqual store_eq (Some 0) (Some 1) = Some True
   \<and> iteration store_eq (Some 0) = Some [JDouble 2]
   \<and> qHash combine_example store_eq (Some 0) 7 = Some 220
   \<and> qHash combine_example store_eq (Some 1) 7 = Some 220"
proof -
  have h: "size_arr store_eq (Some 0) = Some 1" "size_arr store_eq (Some 1) = Some 1"
    by (simp_all add: size_arr_def store_eq_def load_def)
  have e: "comparesEqual store_eq (Some 0) (Some 1) = Some True"
    by (simp add: comparesEqual_def store_eq_def load_def equal_from.simps valueAt_def)
  have i: "iteration store_eq (Some 0) = Some [JDouble 2]"
    by (simp add: iteration_def iterate.simps size_arr_def at_arr_def store_eq_def load_def valueAt_def)
  have f: "foldl combine_example 7 [JDouble 2] = 220"
    by (simp add: combine_example_def)
  show ?thesis
    using h e i f qHash_respects_equality [OF h e, of combine_example 7] by auto
qed

text \<open>
  Claim C10. Move-constructing an array from a live handle leaves the store as it is,
  gives the new handle the pointer of the source and leaves the source with no
  container: the source then has size 0, is empty, reads Undefined at every index and
  iterates over nothing, and the new handle shows the size and the elements the source
  showed before.
\<close>

theorem move_leaves_source_empty:
  assumes "live s other"
  shows "\<exists>s' this other'. move s other = Some (s', this, other')
           \<and> other' = None
           \<and> size_arr s' other' = Some 0 \<and> isEmpty s' other' = Some True
           \<and> (\<forall>i. at_arr s' other' i = Some JUndefined)
           \<and> iteration s' other' = Some []
           \<and> size_arr s' this = size_arr s other
           \<and> (\<forall>i. at_arr s' this i = at_arr s other i)
           \<and> live s' this"
  using assms
  by (simp add: move_live size_arr_def isEmpty_def at_arr_def iteration_def iterate.simps)

theorem move_leaves_source_empty_witness:
  "live store_12 (Some 0)
   \<and> move store_12 (Some 0) = Some (store_12, Some 0, None)
   \<and> size_arr store_12 None = Some 0 \<and> isEmpty store_12 None = Some True
   \<and> size_arr store_12 (Some 0) = Some 2
   \<and> at_arr store_12 (Some 0) 0 = Some (JDouble 1) \<and> at_arr store_12 (Some 0) 1 = Some (JDouble 2)"
proof -
  have h: "live store_12 (Some 0)"
    by (simp add: live_def store_12_def load_def)
  have m: "move store_12 (Some 0) = Some (store_12, Some 0, None)"
    by (simp add: move_def copy_def ref_ref_def assign_ptr_def ref_deref_def store_12_def load_def)
  have v: "size_arr store_12 (Some 0) = Some 2"
    "at_arr store_12 (Some 0) 0 = Some (JDouble 1)" "at_arr store_12 (Some 0) 1 = Some (JDouble 2)"
    by (simp_all add: size_arr_def at_arr_def store_12_def load_def valueAt_def)
  show ?thesis
    using h m v move_leaves_source_empty [OF h] by auto
qed

end
